theory Spec2Isabelle
  imports Main
begin

section \<open>The board\<close>

text \<open>
  \<^verbatim>\<open>Board.board\<close> is a list of three rows of three one-character strings, \<^verbatim>\<open>'-'\<close> for an
  open position. A cell is a \<^typ>\<open>char\<close>, a row a list of cells, the board a list of rows.
  The constructor builds the 3x3 grid and every later write is \<^verbatim>\<open>board[x][y] = s\<close>, which
  keeps the shape, so \<open>wf_board\<close> is the shape every \<^verbatim>\<open>Board\<close> object has. Outside that
  shape Python raises \<^verbatim>\<open>IndexError\<close> where \<open>!\<close> is unspecified: the theorems below are
  stated for boards of that shape.
\<close>

type_synonym board = "char list list"

record player =
  name :: string
  symbol :: char

definition init_board :: board where
  "init_board =
     [[CHR ''-'', CHR ''-'', CHR ''-''],
      [CHR ''-'', CHR ''-'', CHR ''-''],
      [CHR ''-'', CHR ''-'', CHR ''-'']]"

definition wf_board :: "board \<Rightarrow> bool" where
  "wf_board b =
     (length b = 3 \<and> length (b ! 0) = 3 \<and> length (b ! 1) = 3 \<and> length (b ! 2) = 3)"

text \<open>The assignment \<^verbatim>\<open>self.board[x][y] = s\<close>.\<close>

definition set_cell :: "board \<Rightarrow> nat \<Rightarrow> nat \<Rightarrow> char \<Rightarrow> board" where
  "set_cell b x y s = b[x := (b ! x)[y := s]]"

text \<open>
  \<^verbatim>\<open>Board.game_state\<close>: the loop over \<^verbatim>\<open>range(3)\<close> tests, for each \<open>i\<close>, row \<open>i\<close> for X, row
  \<open>i\<close> for O, column \<open>i\<close> for X, column \<open>i\<close> for O, and returns at the first hit; then the
  two diagonals for X, then for O; then \<^verbatim>\<open>(False, None)\<close>.
\<close>

definition row_is :: "board \<Rightarrow> nat \<Rightarrow> char \<Rightarrow> bool" where
  "row_is b i s = (b ! i ! 0 = s \<and> b ! i ! 1 = s \<and> b ! i ! 2 = s)"

definition col_is :: "board \<Rightarrow> nat \<Rightarrow> char \<Rightarrow> bool" where
  "col_is b i s = (b ! 0 ! i = s \<and> b ! 1 ! i = s \<and> b ! 2 ! i = s)"

definition diag_is :: "board \<Rightarrow> char \<Rightarrow> bool" where
  "diag_is b s =
     (b ! 0 ! 0 = s \<and> b ! 1 ! 1 = s \<and> b ! 2 ! 2 = s \<or>
      b ! 0 ! 2 = s \<and> b ! 1 ! 1 = s \<and> b ! 2 ! 0 = s)"

fun game_state_loop :: "board \<Rightarrow> nat list \<Rightarrow> (bool \<times> char option) option" where
  "game_state_loop b [] = None"
| "game_state_loop b (i # rest) =
     (if row_is b i (CHR ''X'') then Some (True, Some (CHR ''X''))
      else if row_is b i (CHR ''O'') then Some (True, Some (CHR ''O''))
      else if col_is b i (CHR ''X'') then Some (True, Some (CHR ''X''))
      else if col_is b i (CHR ''O'') then Some (True, Some (CHR ''O''))
      else game_state_loop b rest)"

definition game_state :: "board \<Rightarrow> bool \<times> char option" where
  "game_state b =
     (case game_state_loop b [0, 1, 2] of
        Some r \<Rightarrow> r
      | None \<Rightarrow>
          if diag_is b (CHR ''X'') then (True, Some (CHR ''X''))
          else if diag_is b (CHR ''O'') then (True, Some (CHR ''O''))
          else (False, None))"

text \<open>\<^verbatim>\<open>Board.check_pos\<close>.\<close>

definition check_pos :: "board \<Rightarrow> nat \<Rightarrow> nat \<Rightarrow> bool" where
  "check_pos b x y = (if b ! x ! y = CHR ''-'' then True else False)"

text \<open>\<^verbatim>\<open>Board.board_full\<close>: two nested loops that return False at the first open cell.\<close>

fun row_full :: "char list \<Rightarrow> bool" where
  "row_full [] = True"
| "row_full (col # cols) = (if col = CHR ''-'' then False else row_full cols)"

fun board_full :: "board \<Rightarrow> bool" where
  "board_full [] = True"
| "board_full (row # rows) = (if row_full row then board_full rows else False)"

section \<open>The search\<close>

text \<open>
  A \<^verbatim>\<open>for\<close> loop over a list whose body updates the loop's variables and may fail to
  return (the body calls the fuelled \<open>minimax\<close>).
\<close>

fun for_each :: "('a \<Rightarrow> 's \<Rightarrow> 's option) \<Rightarrow> 'a list \<Rightarrow> 's \<Rightarrow> 's option" where
  "for_each body [] s = Some s"
| "for_each body (x # xs) s =
     (case body x s of None \<Rightarrow> None | Some s' \<Rightarrow> for_each body xs s')"

text \<open>
  The terminal test at the head of \<^verbatim>\<open>minimax\<close>. \<open>None\<close> is falling through to the layer
  loops: the test \<^verbatim>\<open>board_full() or g_state\<close> failed, or none of its three branches
  returned.
\<close>

definition terminal_score :: "board \<Rightarrow> int option" where
  "terminal_score state =
     (case game_state state of (g_state, symb) \<Rightarrow>
        if board_full state \<or> g_state then
          (if g_state = True \<and> symb = Some (CHR ''X'') then Some (- 10)
           else if g_state = True \<and> symb = Some (CHR ''O'') then Some 10
           else if g_state = False then Some 0
           else None)
        else None)"

text \<open>
  \<^verbatim>\<open>minimax(state, depth, max_or_min)\<close>. The board is mutated in place, so the model
  passes it through and returns it with the score. The first argument is fuel: the
  recursion is through the board that the recursive call hands back, and \<open>None\<close> is
  running out of fuel. The loop variables are \<open>(best_score, state)\<close>; the range of the
  inner loop is read from the board when the row starts.
\<close>

fun minimax :: "nat \<Rightarrow> board \<Rightarrow> int \<Rightarrow> bool \<Rightarrow> (int \<times> board) option" where
  "minimax 0 state depth max_or_min = None"
| "minimax (Suc fuel) state depth max_or_min =
     (case terminal_score state of
        Some v \<Rightarrow> Some (v, state)
      | None \<Rightarrow>
          if max_or_min then
            for_each (\<lambda>row (best_score, st).
              for_each (\<lambda>col (best_score, st).
                if st ! row ! col = CHR ''-'' then
                  (case minimax fuel (set_cell st row col (CHR ''O'')) (depth + 1) False of
                     None \<Rightarrow> None
                   | Some (score, st') \<Rightarrow>
                       Some (if score > best_score then score else best_score,
                             set_cell st' row col (CHR ''-'')))
                else Some (best_score, st))
              [0..<length (st ! row)] (best_score, st))
            [0..<length state] (- 10000, state)
          else
            for_each (\<lambda>row (best_score, st).
              for_each (\<lambda>col (best_score, st).
                if st ! row ! col = CHR ''-'' then
                  (case minimax fuel (set_cell st row col (CHR ''X'')) (depth + 1) True of
                     None \<Rightarrow> None
                   | Some (score, st') \<Rightarrow>
                       Some (if score < best_score then score else best_score,
                             set_cell st' row col (CHR ''-'')))
                else Some (best_score, st))
              [0..<length (st ! row)] (best_score, st))
            [0..<length state] (10000, state))"

text \<open>
  \<^verbatim>\<open>ai(state, player)\<close>. \<^verbatim>\<open>best_move\<close> is unbound until the first strictly greater score:
  \<open>None\<close> in the loop variables, and the \<^verbatim>\<open>return\<close> raises \<^verbatim>\<open>UnboundLocalError\<close> on it.
\<close>

datatype error = UnboundLocalError

definition ai :: "nat \<Rightarrow> board \<Rightarrow> player \<Rightarrow> ((error + nat \<times> nat) \<times> board) option" where
  "ai fuel state player =
     (case
        for_each (\<lambda>row ((best_score, best_move), st).
          for_each (\<lambda>col ((best_score, best_move), st).
            if st ! row ! col = CHR ''-'' then
              (case minimax fuel (set_cell st row col (symbol player)) 0 False of
                 None \<Rightarrow> None
               | Some (score, st') \<Rightarrow>
                   Some (if score > best_score then (score, Some (row, col))
                         else (best_score, best_move),
                         set_cell st' row col (CHR ''-'')))
            else Some ((best_score, best_move), st))
          [0..<length (st ! row)] ((best_score, best_move), st))
        [0..<length state] ((- 10000, None), state)
      of
        None \<Rightarrow> None
      | Some ((best_score, best_move), st) \<Rightarrow>
          (case best_move of
             None \<Rightarrow> Some (Inl UnboundLocalError, st)
           | Some m \<Rightarrow> Some (Inr m, st)))"

section \<open>The game loop\<close>

text \<open>
  The dictionary \<^verbatim>\<open>moves\<close> of \<^verbatim>\<open>make_play\<close>, from the number the user enters to the
  coordinates.
\<close>

definition moves :: "int \<Rightarrow> (nat \<times> nat) option" where
  "moves =
     map_of [(1, (0, 0)), (2, (0, 1)), (3, (0, 2)),
             (4, (1, 0)), (5, (1, 1)), (6, (1, 2)),
             (7, (2, 0)), (8, (2, 1)), (9, (2, 2))]"

text \<open>
  The single-player game of \<^verbatim>\<open>main\<close>: \<^verbatim>\<open>p1\<close> has the name the user entered and the
  symbol \<^verbatim>\<open>'X'\<close>, \<^verbatim>\<open>p2\<close> is \<^verbatim>\<open>Player("Bot", 'O')\<close>; \<^verbatim>\<open>turn\<close> is 1 for \<^verbatim>\<open>p1\<close> and -1 for
  \<^verbatim>\<open>p2\<close>. A configuration is the board with either the turn of the next iteration of the
  loop or the way the loop ended.
\<close>

datatype phase = Playing int | P1_won | P2_won | Draw

definition mover :: "string \<Rightarrow> int \<Rightarrow> player" where
  "mover nm turn =
     (if turn = 1 then \<lparr>name = nm, symbol = CHR ''X''\<rparr>
      else \<lparr>name = ''Bot'', symbol = CHR ''O''\<rparr>)"

text \<open>
  The end of an iteration of the loop, after the move: a win is announced for the player
  whose turn it is, then the draw is tested, then the turn changes.
\<close>

definition after_play :: "board \<Rightarrow> int \<Rightarrow> board \<times> phase" where
  "after_play b turn =
     (case game_state b of (g_state, symb) \<Rightarrow>
        if g_state then (if turn = 1 then (b, P1_won) else (b, P2_won))
        else if board_full b = True then (b, Draw)
        else (b, Playing (turn * - 1)))"

text \<open>
  The configurations the loop reaches. The first turn is drawn at random. \<^verbatim>\<open>make_play\<close>
  and \<^verbatim>\<open>set_player\<close> branch on the name of the player: a player who is not named "Bot"
  enters numbers until one is between 1 and 9 and names an open position, and the symbol
  is written there; for a player named "Bot" the coordinates come from \<open>ai\<close>, whenever
  it returns.
\<close>

inductive game :: "string \<Rightarrow> board \<times> phase \<Rightarrow> bool" for nm :: string where
  start: "turn = 1 \<or> turn = - 1 \<Longrightarrow> game nm (init_board, Playing turn)"
| human_play:
    "game nm (b, Playing turn) \<Longrightarrow> name (mover nm turn) \<noteq> ''Bot'' \<Longrightarrow>
     moves k = Some (x, y) \<Longrightarrow> check_pos b x y \<Longrightarrow>
     game nm (after_play (set_cell b x y (symbol (mover nm turn))) turn)"
| bot_play:
    "game nm (b, Playing turn) \<Longrightarrow> name (mover nm turn) = ''Bot'' \<Longrightarrow>
     ai fuel b (mover nm turn) = Some (Inr (x, y), b') \<Longrightarrow>
     game nm (after_play (set_cell b' x y (symbol (mover nm turn))) turn)"

section \<open>Auxiliary notions for the proofs\<close>

text \<open>
  The positions of a board in row-major order, the open ones among them, and their
  number: the measure that every recursive call of the search decreases.
\<close>

definition cells :: "board \<Rightarrow> (nat \<times> nat) list" where
  "cells b = concat (map (\<lambda>r. map (Pair r) [0..<length (b ! r)]) [0..<length b])"

definition empties :: "board \<Rightarrow> (nat \<times> nat) list" where
  "empties b = filter (\<lambda>(r, c). b ! r ! c = CHR ''-'') (cells b)"

definition count_empty :: "board \<Rightarrow> nat" where
  "count_empty b = length (empties b)"

definition val :: "board \<Rightarrow> bool \<Rightarrow> int" where
  "val b m = fst (the (minimax (Suc (count_empty b)) b 0 m))"

definition scan_row ::
  "(board \<Rightarrow> (int \<times> board) option) \<Rightarrow> char \<Rightarrow> (nat \<times> nat \<Rightarrow> int \<Rightarrow> 'a \<Rightarrow> 'a) \<Rightarrow>
   nat \<Rightarrow> nat list \<Rightarrow> 'a \<times> board \<Rightarrow> ('a \<times> board) option" where
  "scan_row f mk upd r cs s =
     for_each (\<lambda>col s.
       if snd s ! r ! col = CHR ''-'' then
         (case f (set_cell (snd s) r col mk) of
            None \<Rightarrow> None
          | Some x \<Rightarrow> Some (upd (r, col) (fst x) (fst s), set_cell (snd x) r col (CHR ''-'')))
       else Some s) cs s"

definition scan_board ::
  "(board \<Rightarrow> (int \<times> board) option) \<Rightarrow> char \<Rightarrow> (nat \<times> nat \<Rightarrow> int \<Rightarrow> 'a \<Rightarrow> 'a) \<Rightarrow>
   nat list \<Rightarrow> 'a \<times> board \<Rightarrow> ('a \<times> board) option" where
  "scan_board f mk upd rs s =
     for_each (\<lambda>row s. scan_row f mk upd row [0..<length (snd s ! row)] s) rs s"

text \<open>
  A check that the player of \<^verbatim>\<open>'O'\<close> can avoid defeat from a board: at a turn of \<^verbatim>\<open>'O'\<close>
  some open cell, tried in a fixed order, leads to a safe board, at a turn of \<^verbatim>\<open>'X'\<close>
  every open cell does. It stops at the first success or failure, so it is evaluated on
  far fewer boards than the search; its soundness for the value of the search is
  \<open>o_safe_val\<close>.
\<close>

fun any_cell :: "(nat \<times> nat \<Rightarrow> bool) \<Rightarrow> board \<Rightarrow> (nat \<times> nat) list \<Rightarrow> bool" where
  "any_cell P b [] = False"
| "any_cell P b (p # ps) =
     (if fst p < length b then
        if snd p < length (b ! fst p) then
          if b ! fst p ! snd p = CHR ''-'' then
            if P p then True else any_cell P b ps
          else any_cell P b ps
        else any_cell P b ps
      else any_cell P b ps)"

fun all_cells :: "(nat \<times> nat \<Rightarrow> bool) \<Rightarrow> (nat \<times> nat) list \<Rightarrow> bool" where
  "all_cells P [] = True"
| "all_cells P (p # ps) = (if P p then all_cells P ps else False)"

definition try_order :: "(nat \<times> nat) list" where
  "try_order = [(1, 1), (2, 0), (0, 2), (2, 2), (2, 1), (0, 1), (0, 0), (1, 2), (1, 0)]"

fun o_safe :: "nat \<Rightarrow> board \<Rightarrow> bool \<Rightarrow> bool" where
  "o_safe 0 b m = False"
| "o_safe (Suc n) b m =
     (case terminal_score b of
        Some v \<Rightarrow> 0 \<le> v
      | None \<Rightarrow>
          if m then any_cell (\<lambda>p. o_safe n (set_cell b (fst p) (snd p) (CHR ''O'')) False) b try_order
          else all_cells (\<lambda>p. o_safe n (set_cell b (fst p) (snd p) (CHR ''X'')) True) (empties b))"

text \<open>
  What holds of every configuration of the game: the board has its shape; while the game
  runs the board is not terminal and the search gives it a value of at least 0 for the
  player to move; the loop never ends with a win of \<^verbatim>\<open>p1\<close>.
\<close>

definition safe_config :: "board \<times> phase \<Rightarrow> bool" where
  "safe_config s =
     (case s of (b, ph) \<Rightarrow>
        wf_board b \<and>
        (case ph of
           Playing t \<Rightarrow> (t = 1 \<or> t = - 1) \<and> terminal_score b = None \<and> 0 \<le> val b (t \<noteq> 1)
         | P1_won \<Rightarrow> False
         | P2_won \<Rightarrow> game_state b = (True, Some (CHR ''O''))
         | Draw \<Rightarrow> game_state b = (False, None) \<and> board_full b))"

section \<open>Notions of the specification\<close>

text \<open>
  The eight winning lines, a line filled with a mark, a board that contains three of a mark
  in a winning line, and the board that holds a mark on one line and is open elsewhere.
\<close>

definition win_lines :: "(nat \<times> nat) list list" where
  "win_lines =
     [[(0, 0), (0, 1), (0, 2)], [(1, 0), (1, 1), (1, 2)], [(2, 0), (2, 1), (2, 2)],
      [(0, 0), (1, 0), (2, 0)], [(0, 1), (1, 1), (2, 1)], [(0, 2), (1, 2), (2, 2)],
      [(0, 0), (1, 1), (2, 2)], [(0, 2), (1, 1), (2, 0)]]"

fun line_filled :: "board \<Rightarrow> char \<Rightarrow> (nat \<times> nat) list \<Rightarrow> bool" where
  "line_filled b s [] = True"
| "line_filled b s (p # ps) = (b ! fst p ! snd p = s \<and> line_filled b s ps)"

definition three_in_line :: "board \<Rightarrow> char \<Rightarrow> bool" where
  "three_in_line b s = list_ex (line_filled b s) win_lines"

fun line_board :: "(nat \<times> nat) list \<Rightarrow> char \<Rightarrow> board" where
  "line_board [] s = init_board"
| "line_board (p # ps) s = set_cell (line_board ps s) (fst p) (snd p) s"

text \<open>
  The score \<open>ai\<close> gives an open cell: the mover's symbol is written there and
  \<^verbatim>\<open>minimax(state, 0, False)\<close> is called.
\<close>

definition cell_score :: "nat \<Rightarrow> board \<Rightarrow> player \<Rightarrow> nat \<times> nat \<Rightarrow> int option" where
  "cell_score fuel b p pos =
     map_option fst (minimax fuel (set_cell b (fst pos) (snd pos) (symbol p)) 0 False)"

text \<open>The boards of the scenarios.\<close>

definition scenario_win :: board where
  "scenario_win =
     [[CHR ''O'', CHR ''O'', CHR ''-''],
      [CHR ''X'', CHR ''X'', CHR ''-''],
      [CHR ''-'', CHR ''-'', CHR ''-'']]"

definition scenario_draw :: board where
  "scenario_draw =
     [[CHR ''X'', CHR ''O'', CHR ''X''],
      [CHR ''O'', CHR ''X'', CHR ''O''],
      [CHR ''O'', CHR ''X'', CHR ''-'']]"

definition tie_board :: board where
  "tie_board =
     [[CHR ''X'', CHR ''X'', CHR ''O''],
      [CHR ''X'', CHR ''-'', CHR ''O''],
      [CHR ''-'', CHR ''O'', CHR ''-'']]"

definition centre_taken :: board where
  "centre_taken =
     [[CHR ''-'', CHR ''-'', CHR ''-''],
      [CHR ''-'', CHR ''X'', CHR ''-''],
      [CHR ''-'', CHR ''-'', CHR ''-'']]"

section \<open>Basic facts\<close>

lemma init_board_wf: "wf_board init_board"
  by (simp add: wf_board_def init_board_def)

lemma minimax_Suc_scan:
  "minimax (Suc n) state depth max_or_min =
     (case terminal_score state of
        Some v \<Rightarrow> Some (v, state)
      | None \<Rightarrow>
          if max_or_min then
            scan_board (\<lambda>st. minimax n st (depth + 1) False) (CHR ''O'')
              (\<lambda>p score best. if score > best then score else best)
              [0..<length state] (- 10000, state)
          else
            scan_board (\<lambda>st. minimax n st (depth + 1) True) (CHR ''X'')
              (\<lambda>p score best. if score < best then score else best)
              [0..<length state] (10000, state))"
  unfolding minimax.simps scan_board_def scan_row_def case_prod_unfold prod.collapse
  by (rule refl)

lemma ai_scan:
  "ai n state p =
     (case scan_board (\<lambda>st. minimax n st 0 False) (symbol p)
             (\<lambda>pos score bb. if score > fst bb then (score, Some pos) else bb)
             [0..<length state] ((- 10000, None), state) of
        None \<Rightarrow> None
      | Some s \<Rightarrow>
          (case snd (fst s) of
             None \<Rightarrow> Some (Inl UnboundLocalError, snd s)
           | Some m \<Rightarrow> Some (Inr m, snd s)))"
  unfolding ai_def scan_board_def scan_row_def case_prod_unfold prod.collapse
  by (rule refl)


lemma set_cell_restore:
  "r < length b \<Longrightarrow> b ! r ! c = x \<Longrightarrow> set_cell (set_cell b r c s) r c x = b"
  by (auto simp: set_cell_def list_update_same_conv)

lemma scan_row_pure:
  assumes r: "r < length b"
    and f: "\<And>c. c < length (b ! r) \<Longrightarrow> b ! r ! c = CHR ''-'' \<Longrightarrow>
              f (set_cell b r c mk) = Some (g (r, c), set_cell b r c mk)"
    and cs: "\<forall>c\<in>set cs. c < length (b ! r)"
  shows "scan_row f mk upd r cs (acc, b) =
           Some (foldl (\<lambda>a p. upd p (g p) a) acc
                   (filter (\<lambda>(r, c). b ! r ! c = CHR ''-'') (map (Pair r) cs)), b)"
  using cs
proof (induction cs arbitrary: acc)
  case Nil
  then show ?case by (simp add: scan_row_def)
next
  case (Cons c cs)
  have step: "scan_row f mk upd r (c # cs) (acc, b) =
      scan_row f mk upd r cs
        (if b ! r ! c = CHR ''-'' then upd (r, c) (g (r, c)) acc else acc, b)"
    using Cons.prems r f [of c] by (simp add: scan_row_def set_cell_restore)
  show ?case
    unfolding step using Cons.IH Cons.prems by simp
qed

lemma scan_board_pure:
  assumes f: "\<And>r c. r < length b \<Longrightarrow> c < length (b ! r) \<Longrightarrow> b ! r ! c = CHR ''-'' \<Longrightarrow>
              f (set_cell b r c mk) = Some (g (r, c), set_cell b r c mk)"
    and rs: "\<forall>r\<in>set rs. r < length b"
  shows "scan_board f mk upd rs (acc, b) =
           Some (foldl (\<lambda>a p. upd p (g p) a) acc
                   (filter (\<lambda>(r, c). b ! r ! c = CHR ''-'')
                      (concat (map (\<lambda>r. map (Pair r) [0..<length (b ! r)]) rs))), b)"
  using rs
proof (induction rs arbitrary: acc)
  case Nil
  then show ?case by (simp add: scan_board_def)
next
  case (Cons r rs)
  have row: "scan_row f mk upd r [0..<length (b ! r)] (acc, b) =
      Some (foldl (\<lambda>a p. upd p (g p) a) acc
              (filter (\<lambda>(r, c). b ! r ! c = CHR ''-'') (map (Pair r) [0..<length (b ! r)])), b)"
    using Cons.prems f by (intro scan_row_pure) auto
  have step: "scan_board f mk upd (r # rs) (acc, b) =
      scan_board f mk upd rs
        (foldl (\<lambda>a p. upd p (g p) a) acc
           (filter (\<lambda>(r, c). b ! r ! c = CHR ''-'') (map (Pair r) [0..<length (b ! r)])), b)"
    using row by (simp add: scan_board_def)
  show ?case
    unfolding step using Cons.IH Cons.prems by simp
qed

lemma scan_board_empties:
  assumes "\<And>r c. r < length b \<Longrightarrow> c < length (b ! r) \<Longrightarrow> b ! r ! c = CHR ''-'' \<Longrightarrow>
              f (set_cell b r c mk) = Some (g (r, c), set_cell b r c mk)"
  shows "scan_board f mk upd [0..<length b] (acc, b) =
           Some (foldl (\<lambda>a p. upd p (g p) a) acc (empties b), b)"
  using scan_board_pure [of b f mk g "[0..<length b]" upd acc] assms
  by (simp add: empties_def cells_def)


lemma length_set_cell [simp]: "length (set_cell b r c s) = length b"
  by (simp add: set_cell_def)

lemma length_set_cell_row [simp]: "length (set_cell b r c s ! i) = length (b ! i)"
  by (cases "r < length b"; cases "i = r") (simp_all add: set_cell_def list_update_beyond)

lemma cells_set_cell [simp]: "cells (set_cell b r c s) = cells b"
  by (simp add: cells_def)

lemma in_cells: "(r, c) \<in> set (cells b) \<longleftrightarrow> r < length b \<and> c < length (b ! r)"
  by (force simp: cells_def)

lemma in_empties:
  "(r, c) \<in> set (empties b) \<longleftrightarrow> r < length b \<and> c < length (b ! r) \<and> b ! r ! c = CHR ''-''"
  by (auto simp: empties_def in_cells)

lemma set_cell_nth:
  "r < length b \<Longrightarrow> c < length (b ! r) \<Longrightarrow>
   set_cell b r c s ! i ! j = (if i = r \<and> j = c then s else b ! i ! j)"
  by (cases "i = r"; cases "j = c") (simp_all add: set_cell_def)

lemma empties_set_cell:
  assumes "r < length b" "c < length (b ! r)" "s \<noteq> CHR ''-''"
  shows "empties (set_cell b r c s) = filter (\<lambda>p. p \<noteq> (r, c)) (empties b)"
proof -
  have "filter (\<lambda>(i, j). set_cell b r c s ! i ! j = CHR ''-'') (cells b) =
        filter (\<lambda>p. (case p of (i, j) \<Rightarrow> b ! i ! j = CHR ''-'') \<and> p \<noteq> (r, c)) (cells b)"
    using assms by (intro filter_cong) (auto simp: set_cell_nth)
  then show ?thesis
    by (simp add: empties_def)
qed

lemma count_empty_set_cell_less:
  assumes "r < length b" "c < length (b ! r)" "b ! r ! c = CHR ''-''" "s \<noteq> CHR ''-''"
  shows "count_empty (set_cell b r c s) < count_empty b"
proof -
  have "(r, c) \<in> set (empties b)"
    using assms by (simp add: in_empties)
  then have "length (filter (\<lambda>p. p \<noteq> (r, c)) (empties b)) < length (empties b)"
    by (intro length_filter_less) auto
  then show ?thesis
    using assms by (simp add: count_empty_def empties_set_cell)
qed

lemma count_empty_set_cell_le:
  assumes "r < length b" "c < length (b ! r)" "b ! r ! c = CHR ''-''"
  shows "count_empty (set_cell b r c s) \<le> count_empty b"
proof (cases "s = CHR ''-''")
  case True
  have "set_cell b r c (CHR ''-'') = b"
    using assms by (metis list_update_id set_cell_def)
  with True show ?thesis by simp
next
  case False
  with assms show ?thesis
    using count_empty_set_cell_less [of r b c s] by simp
qed

lemma row_full_iff: "row_full cols \<longleftrightarrow> CHR ''-'' \<notin> set cols"
  by (induction cols) auto

lemma board_full_iff: "board_full b \<longleftrightarrow> (\<forall>row\<in>set b. CHR ''-'' \<notin> set row)"
  by (induction b) (auto simp: row_full_iff)

lemma board_full_empties: "board_full b \<longleftrightarrow> empties b = []"
proof
  assume full: "board_full b"
  have "\<not> (case p of (r, c) \<Rightarrow> b ! r ! c = CHR ''-'')" if "p \<in> set (cells b)" for p
  proof -
    obtain r c where p: "p = (r, c)" by (cases p)
    with that have rc: "r < length b" "c < length (b ! r)" by (simp_all add: in_cells)
    then have "b ! r \<in> set b" "b ! r ! c \<in> set (b ! r)" by simp_all
    with full show ?thesis unfolding p board_full_iff by auto
  qed
  then show "empties b = []"
    by (simp add: empties_def)
next
  assume e: "empties b = []"
  show "board_full b"
    unfolding board_full_iff
  proof (intro ballI notI)
    fix row assume "row \<in> set b" "CHR ''-'' \<in> set row"
    then obtain r c where "r < length b" "b ! r = row" "c < length row" "row ! c = CHR ''-''"
      by (auto simp: in_set_conv_nth)
    then have "(r, c) \<in> set (empties b)" by (simp add: in_empties)
    with e show False by simp
  qed
qed


lemma minimax_fuel_depth:
  "count_empty b < n \<Longrightarrow> count_empty b < n' \<Longrightarrow>
   \<exists>v. minimax n b d m = Some (v, b) \<and> minimax n' b d' m = Some (v, b)"
proof (induction n arbitrary: b d m n' d')
  case 0
  then show ?case by simp
next
  case (Suc n)
  from Suc.prems obtain k where n': "n' = Suc k"
    by (cases n') auto
  show ?case
  proof (cases "terminal_score b")
    case (Some v)
    then show ?thesis
      by (simp add: n')
  next
    case None
    define mk where "mk = (if m then CHR ''O'' else CHR ''X'')"
    define g where "g = (\<lambda>(r, c). fst (the (minimax n (set_cell b r c mk) (d + 1) (\<not> m))))"
    have mk: "mk \<noteq> CHR ''-''"
      by (simp add: mk_def)
    have child: "minimax n (set_cell b r c mk) (d + 1) (\<not> m) = Some (g (r, c), set_cell b r c mk) \<and>
                 minimax k (set_cell b r c mk) (d' + 1) (\<not> m) = Some (g (r, c), set_cell b r c mk)"
      if "r < length b" "c < length (b ! r)" "b ! r ! c = CHR ''-''" for r c
    proof -
      have less: "count_empty (set_cell b r c mk) < count_empty b"
        using that mk by (rule count_empty_set_cell_less)
      with Suc.prems n' have "count_empty (set_cell b r c mk) < n" "count_empty (set_cell b r c mk) < k"
        by simp_all
      from Suc.IH [OF this, of "d + 1" "\<not> m" "d' + 1"] show ?thesis
        unfolding g_def by auto
    qed
    show ?thesis
    proof (cases m)
      case True
      with child have
        "scan_board (\<lambda>st. minimax n st (d + 1) False) (CHR ''O'') upd [0..<length b] (acc, b) =
           Some (foldl (\<lambda>a p. upd p (g p) a) acc (empties b), b)"
        "scan_board (\<lambda>st. minimax k st (d' + 1) False) (CHR ''O'') upd [0..<length b] (acc, b) =
           Some (foldl (\<lambda>a p. upd p (g p) a) acc (empties b), b)"
        for upd :: "nat \<times> nat \<Rightarrow> int \<Rightarrow> int \<Rightarrow> int" and acc
        by (intro scan_board_empties; simp add: mk_def)+
      with None True show ?thesis
        by (simp add: n' minimax_Suc_scan del: minimax.simps)
    next
      case False
      with child have
        "scan_board (\<lambda>st. minimax n st (d + 1) True) (CHR ''X'') upd [0..<length b] (acc, b) =
           Some (foldl (\<lambda>a p. upd p (g p) a) acc (empties b), b)"
        "scan_board (\<lambda>st. minimax k st (d' + 1) True) (CHR ''X'') upd [0..<length b] (acc, b) =
           Some (foldl (\<lambda>a p. upd p (g p) a) acc (empties b), b)"
        for upd :: "nat \<times> nat \<Rightarrow> int \<Rightarrow> int \<Rightarrow> int" and acc
        by (intro scan_board_empties; simp add: mk_def)+
      with None False show ?thesis
        by (simp add: n' minimax_Suc_scan del: minimax.simps)
    qed
  qed
qed

lemma minimax_val: "count_empty b < n \<Longrightarrow> minimax n b d m = Some (val b m, b)"
  using minimax_fuel_depth [of b n "Suc (count_empty b)" d m 0]
  unfolding val_def by (auto simp del: minimax.simps)

lemma count_empty_init: "count_empty init_board = 9"
  by (simp add: count_empty_def empties_def cells_def init_board_def upt_rec_numeral)

lemma wf_in_range: "wf_board b \<Longrightarrow> r < 3 \<Longrightarrow> c < 3 \<Longrightarrow> r < length b \<and> c < length (b ! r)"
  by (cases "r = 0"; cases "r = 1"; cases "r = 2") (auto simp: wf_board_def)

lemma ai_val:
  assumes "count_empty b < n"
  shows "ai n b p =
     (case snd (foldl (\<lambda>bb pos. if fst bb < val (set_cell b (fst pos) (snd pos) (symbol p)) False
                                 then (val (set_cell b (fst pos) (snd pos) (symbol p)) False, Some pos)
                                 else bb)
                 (- 10000, None) (empties b)) of
        None \<Rightarrow> Some (Inl UnboundLocalError, b)
      | Some m \<Rightarrow> Some (Inr m, b))"
proof -
  have "minimax n (set_cell b r c (symbol p)) 0 False =
        Some (val (set_cell b (fst (r, c)) (snd (r, c)) (symbol p)) False, set_cell b r c (symbol p))"
    if "r < length b" "c < length (b ! r)" "b ! r ! c = CHR ''-''" for r c
    using count_empty_set_cell_le [OF that, of "symbol p"] assms
    by (simp add: minimax_val del: minimax.simps)
  then have "scan_board (\<lambda>st. minimax n st 0 False) (symbol p) upd [0..<length b] (acc, b) =
        Some (foldl (\<lambda>a pos. upd pos (val (set_cell b (fst pos) (snd pos) (symbol p)) False) a) acc
                (empties b), b)"
    for upd :: "nat \<times> nat \<Rightarrow> int \<Rightarrow> int \<times> (nat \<times> nat) option \<Rightarrow> int \<times> (nat \<times> nat) option" and acc
    by (rule scan_board_empties)
  then show ?thesis
    by (simp add: ai_scan split: option.split)
qed

section \<open>Facts about the state of the game and the value of a board\<close>

lemma three_in_line_iff:
  "three_in_line b s \<longleftrightarrow>
     row_is b 0 s \<or> row_is b 1 s \<or> row_is b 2 s \<or>
     col_is b 0 s \<or> col_is b 1 s \<or> col_is b 2 s \<or> diag_is b s"
  by (simp add: three_in_line_def win_lines_def row_is_def col_is_def diag_is_def disj_ac)

lemma game_state_none:
  "\<not> three_in_line b (CHR ''X'') \<Longrightarrow> \<not> three_in_line b (CHR ''O'') \<Longrightarrow>
   game_state b = (False, None)"
  by (simp add: three_in_line_iff game_state_def)

lemma game_state_X:
  "three_in_line b (CHR ''X'') \<Longrightarrow> \<not> three_in_line b (CHR ''O'') \<Longrightarrow>
   game_state b = (True, Some (CHR ''X''))"
  unfolding three_in_line_iff game_state_def by simp blast

lemma game_state_O:
  "three_in_line b (CHR ''O'') \<Longrightarrow> \<not> three_in_line b (CHR ''X'') \<Longrightarrow>
   game_state b = (True, Some (CHR ''O''))"
  unfolding three_in_line_iff game_state_def by simp blast

lemma game_state_cases:
  "game_state b = (False, None) \<or> game_state b = (True, Some (CHR ''X'')) \<or>
   game_state b = (True, Some (CHR ''O''))"
  by (simp add: game_state_def)

lemma game_state_won:
  "game_state b = (True, Some s) \<Longrightarrow> three_in_line b s"
  unfolding three_in_line_iff game_state_def by (simp split: if_splits)

lemma game_state_no_winner:
  "game_state b = (False, None) \<Longrightarrow> \<not> three_in_line b (CHR ''X'') \<and> \<not> three_in_line b (CHR ''O'')"
  unfolding three_in_line_iff game_state_def by (simp split: if_splits)

lemma line_boards_X:
  "\<forall>l\<in>set win_lines. game_state (line_board l (CHR ''X'')) = (True, Some (CHR ''X''))"
  by (simp add: win_lines_def set_cell_def init_board_def game_state_def
      row_is_def col_is_def diag_is_def)

lemma line_boards_O:
  "\<forall>l\<in>set win_lines. game_state (line_board l (CHR ''O'')) = (True, Some (CHR ''O''))"
  by (simp add: win_lines_def set_cell_def init_board_def game_state_def
      row_is_def col_is_def diag_is_def)

lemma terminal_score_None_iff:
  "terminal_score b = None \<longleftrightarrow> \<not> board_full b \<and> game_state b = (False, None)"
  using game_state_cases [of b] by (auto simp: terminal_score_def)

lemma terminal_score_range:
  "terminal_score b = Some v \<Longrightarrow> v = - 10 \<or> v = 0 \<or> v = 10"
  by (auto simp: terminal_score_def split: prod.splits if_splits)

lemma val_terminal: "terminal_score b = Some v \<Longrightarrow> val b m = v"
  by (simp add: val_def)

lemma maxfold:
  "foldl (\<lambda>a p. if a < g p then g p else a) a xs = Max (insert (a::int) (g ` set xs))"
proof (induction xs rule: rev_induct)
  case Nil
  then show ?case by simp
next
  case (snoc x xs)
  define M where "M = Max (insert a (g ` set xs))"
  from snoc have ih: "foldl (\<lambda>a p. if a < g p then g p else a) a xs = M"
    by (simp only: M_def)
  have 1: "foldl (\<lambda>a p. if a < g p then g p else a) a (xs @ [x]) = max (g x) M"
    by (simp add: ih max_def)
  have 2: "insert a (g ` set (xs @ [x])) = insert (g x) (insert a (g ` set xs))"
    by auto
  have 3: "Max (insert (g x) (insert a (g ` set xs))) = max (g x) M"
    unfolding M_def by (rule Max_insert) simp_all
  show ?case
    by (simp only: 1 2 3)
qed

lemma minfold:
  "foldl (\<lambda>a p. if g p < a then g p else a) a xs = Min (insert (a::int) (g ` set xs))"
proof (induction xs rule: rev_induct)
  case Nil
  then show ?case by simp
next
  case (snoc x xs)
  define M where "M = Min (insert a (g ` set xs))"
  from snoc have ih: "foldl (\<lambda>a p. if g p < a then g p else a) a xs = M"
    by (simp only: M_def)
  have 1: "foldl (\<lambda>a p. if g p < a then g p else a) a (xs @ [x]) = min (g x) M"
    by (simp add: ih min_def)
  have 2: "insert a (g ` set (xs @ [x])) = insert (g x) (insert a (g ` set xs))"
    by auto
  have 3: "Min (insert (g x) (insert a (g ` set xs))) = min (g x) M"
    unfolding M_def by (rule Min_insert) simp_all
  show ?case
    by (simp only: 1 2 3)
qed

lemma child_val:
  assumes "r < length b" "c < length (b ! r)" "b ! r ! c = CHR ''-''" "mk \<noteq> CHR ''-''"
  shows "minimax (count_empty b) (set_cell b r c mk) d m =
         Some (val (set_cell b (fst (r, c)) (snd (r, c)) mk) m, set_cell b r c mk)"
  using count_empty_set_cell_less [OF assms] by (simp add: minimax_val del: minimax.simps)

lemma val_max:
  assumes "terminal_score b = None"
  shows "val b True =
     Max (insert (- 10000) ((\<lambda>p. val (set_cell b (fst p) (snd p) (CHR ''O'')) False) ` set (empties b)))"
proof -
  have "scan_board (\<lambda>st. minimax (count_empty b) st (0 + 1) False) (CHR ''O'')
          (\<lambda>p score best. if score > best then score else best) [0..<length b] (- 10000, b) =
        Some (foldl (\<lambda>a p. (\<lambda>p score best. if score > best then score else best) p
                 (val (set_cell b (fst p) (snd p) (CHR ''O'')) False) a) (- 10000) (empties b), b)"
    by (rule scan_board_empties) (simp add: child_val)
  with assms have "minimax (Suc (count_empty b)) b 0 True =
      Some (foldl (\<lambda>a p. if a < val (set_cell b (fst p) (snd p) (CHR ''O'')) False
                          then val (set_cell b (fst p) (snd p) (CHR ''O'')) False else a)
              (- 10000) (empties b), b)"
    by (simp add: minimax_Suc_scan del: minimax.simps)
  with minimax_val [of b "Suc (count_empty b)" 0 True] show ?thesis
    by (simp add: maxfold del: minimax.simps)
qed

lemma val_min:
  assumes "terminal_score b = None"
  shows "val b False =
     Min (insert 10000 ((\<lambda>p. val (set_cell b (fst p) (snd p) (CHR ''X'')) True) ` set (empties b)))"
proof -
  have "scan_board (\<lambda>st. minimax (count_empty b) st (0 + 1) True) (CHR ''X'')
          (\<lambda>p score best. if score < best then score else best) [0..<length b] (10000, b) =
        Some (foldl (\<lambda>a p. (\<lambda>p score best. if score < best then score else best) p
                 (val (set_cell b (fst p) (snd p) (CHR ''X'')) True) a) 10000 (empties b), b)"
    by (rule scan_board_empties) (simp add: child_val)
  with assms have "minimax (Suc (count_empty b)) b 0 False =
      Some (foldl (\<lambda>a p. if val (set_cell b (fst p) (snd p) (CHR ''X'')) True < a
                          then val (set_cell b (fst p) (snd p) (CHR ''X'')) True else a)
              10000 (empties b), b)"
    by (simp add: minimax_Suc_scan del: minimax.simps)
  with minimax_val [of b "Suc (count_empty b)" 0 False] show ?thesis
    by (simp add: minfold del: minimax.simps)
qed

lemma val_range: "val b m = - 10 \<or> val b m = 0 \<or> val b m = 10"
proof (induction b arbitrary: m rule: measure_induct_rule [of count_empty])
  case (less b)
  show ?case
  proof (cases "terminal_score b")
    case (Some v)
    then show ?thesis
      using terminal_score_range [of b v] by (simp add: val_terminal)
  next
    case None
    then have ne: "empties b \<noteq> []"
      by (simp add: terminal_score_None_iff board_full_empties)
    define mk where "mk = (if m then CHR ''O'' else CHR ''X'')"
    define g where "g = (\<lambda>p. val (set_cell b (fst p) (snd p) mk) (\<not> m))"
    have g: "g p = - 10 \<or> g p = 0 \<or> g p = 10" if "p \<in> set (empties b)" for p
    proof -
      obtain r c where p: "p = (r, c)" by (cases p)
      with that have "count_empty (set_cell b r c mk) < count_empty b"
        by (intro count_empty_set_cell_less) (simp_all add: in_empties mk_def)
      from less.IH [OF this] show ?thesis
        by (simp add: g_def p)
    qed
    have fin: "finite (g ` set (empties b))" "g ` set (empties b) \<noteq> {}"
      using ne by simp_all
    show ?thesis
    proof (cases m)
      case True
      have "val b True = Max (insert (- 10000) (g ` set (empties b)))"
        using val_max [OF None] True by (simp add: g_def mk_def)
      also have "\<dots> = max (- 10000) (Max (g ` set (empties b)))"
        using fin by (rule Max_insert)
      finally have v: "val b True = max (- 10000) (Max (g ` set (empties b)))" .
      from Max_in [OF fin] obtain p where "p \<in> set (empties b)" "Max (g ` set (empties b)) = g p"
        by auto
      with g [of p] v True show ?thesis
        by auto
    next
      case False
      have "val b False = Min (insert 10000 (g ` set (empties b)))"
        using val_min [OF None] False by (simp add: g_def mk_def)
      also have "\<dots> = min 10000 (Min (g ` set (empties b)))"
        using fin by (rule Min_insert)
      finally have v: "val b False = min 10000 (Min (g ` set (empties b)))" .
      from Min_in [OF fin] obtain p where "p \<in> set (empties b)" "Min (g ` set (empties b)) = g p"
        by auto
      with g [of p] v False show ?thesis
        by auto
    qed
  qed
qed

lemma pick_first_max:
  fixes g :: "'p \<Rightarrow> int"
  shows "\<exists>bs bm. foldl (\<lambda>bb pos. if fst bb < g pos then (g pos, Some pos) else bb)
                    (- 10000, None) xs = (bs, bm) \<and>
           (\<forall>j<length xs. g (xs ! j) \<le> bs) \<and>
           (bm = None \<longrightarrow> bs = - 10000) \<and>
           (\<forall>x. bm = Some x \<longrightarrow>
              (\<exists>i<length xs. xs ! i = x \<and> g x = bs \<and> (\<forall>j<i. g (xs ! j) < bs)))"
proof (induction xs rule: rev_induct)
  case Nil
  then show ?case by simp
next
  case (snoc y ys)
  then obtain bs bm where
    f: "foldl (\<lambda>bb pos. if fst bb < g pos then (g pos, Some pos) else bb) (- 10000, None) ys = (bs, bm)"
    and le: "\<forall>j<length ys. g (ys ! j) \<le> bs"
    and none: "bm = None \<longrightarrow> bs = - 10000"
    and some: "\<forall>x. bm = Some x \<longrightarrow>
              (\<exists>i<length ys. ys ! i = x \<and> g x = bs \<and> (\<forall>j<i. g (ys ! j) < bs))"
    by blast
  show ?case
  proof (cases "bs < g y")
    case True
    have "\<forall>j<length (ys @ [y]). g ((ys @ [y]) ! j) \<le> g y"
      using le True by (auto simp: nth_append less_Suc_eq)
    moreover have "\<exists>i<length (ys @ [y]). (ys @ [y]) ! i = y \<and> g y = g y \<and>
        (\<forall>j<i. g ((ys @ [y]) ! j) < g y)"
      using le True by (intro exI [of _ "length ys"]) (auto simp: nth_append)
    ultimately show ?thesis
      using f True by simp
  next
    case False
    have "\<forall>j<length (ys @ [y]). g ((ys @ [y]) ! j) \<le> bs"
      using le False by (auto simp: nth_append less_Suc_eq)
    moreover have "\<exists>i<length (ys @ [y]). (ys @ [y]) ! i = x \<and> g x = bs \<and>
        (\<forall>j<i. g ((ys @ [y]) ! j) < bs)" if "bm = Some x" for x
    proof -
      from some that obtain i where "i < length ys" "ys ! i = x" "g x = bs" "\<forall>j<i. g (ys ! j) < bs"
        by blast
      then show ?thesis
        by (intro exI [of _ i]) (auto simp: nth_append)
    qed
    ultimately show ?thesis
      using f False none by simp
  qed
qed

lemma ai_pick:
  assumes fuel: "count_empty b < n" and open_cell: "\<not> board_full b"
  shows "\<exists>i<length (empties b).
           ai n b p = Some (Inr (empties b ! i), b) \<and>
           (\<forall>j<length (empties b).
              val (set_cell b (fst (empties b ! j)) (snd (empties b ! j)) (symbol p)) False
              \<le> val (set_cell b (fst (empties b ! i)) (snd (empties b ! i)) (symbol p)) False) \<and>
           (\<forall>j<i.
              val (set_cell b (fst (empties b ! j)) (snd (empties b ! j)) (symbol p)) False
              < val (set_cell b (fst (empties b ! i)) (snd (empties b ! i)) (symbol p)) False)"
proof -
  define g where "g = (\<lambda>pos. val (set_cell b (fst pos) (snd pos) (symbol p)) False)"
  from pick_first_max [of g "empties b"] obtain bs bm where
    f: "foldl (\<lambda>bb pos. if fst bb < g pos then (g pos, Some pos) else bb)
          (- 10000, None) (empties b) = (bs, bm)"
    and le: "\<forall>j<length (empties b). g (empties b ! j) \<le> bs"
    and none: "bm = None \<longrightarrow> bs = - 10000"
    and some: "\<forall>x. bm = Some x \<longrightarrow>
              (\<exists>i<length (empties b). empties b ! i = x \<and> g x = bs \<and>
                 (\<forall>j<i. g (empties b ! j) < bs))"
    by blast
  from open_cell have ne: "0 < length (empties b)"
    by (simp add: board_full_empties)
  have "- 10 \<le> g (empties b ! 0)"
    using val_range [of "set_cell b (fst (empties b ! 0)) (snd (empties b ! 0)) (symbol p)" False]
    by (auto simp: g_def)
  with le ne have "- 10 \<le> bs"
    by force
  with none obtain x where bm: "bm = Some x"
    by (cases bm) auto
  with some obtain i where i: "i < length (empties b)" "empties b ! i = x" "g x = bs"
    "\<forall>j<i. g (empties b ! j) < bs"
    by blast
  have "ai n b p = Some (Inr x, b)"
    using f [unfolded g_def] bm by (simp add: ai_val [OF fuel])
  with i le show ?thesis
    unfolding g_def by (intro exI [of _ i]) auto
qed

lemma cell_score_val:
  assumes "count_empty b < n" "pos \<in> set (empties b)"
  shows "cell_score n b p pos = Some (val (set_cell b (fst pos) (snd pos) (symbol p)) False)"
proof -
  obtain r c where pos: "pos = (r, c)" by (cases pos)
  with assms(2) have "count_empty (set_cell b r c (symbol p)) \<le> count_empty b"
    by (intro count_empty_set_cell_le) (simp_all add: in_empties)
  with assms(1) show ?thesis
    by (simp add: cell_score_def pos minimax_val del: minimax.simps)
qed

lemma cells_wf:
  "wf_board b \<Longrightarrow>
   cells b = [(0, 0), (0, 1), (0, 2), (1, 0), (1, 1), (1, 2), (2, 0), (2, 1), (2, 2)]"
  by (simp add: wf_board_def cells_def numeral_3_eq_3 numeral_2_eq_2)

lemma empties_wf_range:
  "wf_board b \<Longrightarrow> (r, c) \<in> set (empties b) \<Longrightarrow> r < 3 \<and> c < 3 \<and> b ! r ! c = CHR ''-''"
proof -
  assume wf: "wf_board b" and "(r, c) \<in> set (empties b)"
  then have rc: "r < length b" "c < length (b ! r)" "b ! r ! c = CHR ''-''"
    by (simp_all add: in_empties)
  with wf have "r = 0 \<or> r = 1 \<or> r = 2"
    by (auto simp: wf_board_def)
  with wf rc show ?thesis
    by (auto simp: wf_board_def)
qed

lemma count_empty_scenario_draw: "count_empty scenario_draw = 1"
  by (simp add: count_empty_def empties_def cells_def scenario_draw_def
      numeral_3_eq_3 numeral_2_eq_2)

lemma scenario_draw_wf: "wf_board scenario_draw"
  by (simp add: wf_board_def scenario_draw_def)

lemma scenario_draw_open: "\<not> board_full scenario_draw"
  by (simp add: scenario_draw_def)

lemma scenario_win_empties: "empties scenario_win = [(0, 2), (1, 2), (2, 0), (2, 1), (2, 2)]"
  by (simp add: empties_def cells_def scenario_win_def numeral_3_eq_3 numeral_2_eq_2)

lemma scenario_win_top_row:
  "terminal_score (set_cell scenario_win 0 2 (CHR ''O'')) = Some 10"
  by (simp add: terminal_score_def scenario_win_def set_cell_def game_state_def
      row_is_def col_is_def diag_is_def)

lemma tie_board_empties: "empties tie_board = [(1, 1), (2, 0), (2, 2)]"
  by (simp add: empties_def cells_def tie_board_def numeral_3_eq_3 numeral_2_eq_2)

lemma tie_board_scores:
  "cell_score 4 tie_board \<lparr>name = ''Bot'', symbol = CHR ''O''\<rparr> (1, 1) = Some (- 10)"
  "cell_score 4 tie_board \<lparr>name = ''Bot'', symbol = CHR ''O''\<rparr> (2, 0) = Some 10"
  "cell_score 4 tie_board \<lparr>name = ''Bot'', symbol = CHR ''O''\<rparr> (2, 2) = Some 10"
  by code_simp+

section \<open>Facts about the game\<close>

lemma any_cell_ex:
  "any_cell P b ps \<Longrightarrow>
   \<exists>p\<in>set ps. fst p < length b \<and> snd p < length (b ! fst p) \<and> b ! fst p ! snd p = CHR ''-'' \<and> P p"
  by (induction ps) (auto split: if_splits)

lemma all_cells_all: "all_cells P ps \<Longrightarrow> p \<in> set ps \<Longrightarrow> P p"
  by (induction ps) (auto split: if_splits)

lemma val_max_ge:
  assumes "terminal_score b = None" "p \<in> set (empties b)"
  shows "val (set_cell b (fst p) (snd p) (CHR ''O'')) False \<le> val b True"
  unfolding val_max [OF assms(1)] using assms(2) by (intro Max_ge) auto

lemma val_min_le:
  assumes "terminal_score b = None" "p \<in> set (empties b)"
  shows "val b False \<le> val (set_cell b (fst p) (snd p) (CHR ''X'')) True"
  unfolding val_min [OF assms(1)] using assms(2) by (intro Min_le) auto

lemma val_min_ge0:
  assumes "terminal_score b = None"
    and "\<And>p. p \<in> set (empties b) \<Longrightarrow> 0 \<le> val (set_cell b (fst p) (snd p) (CHR ''X'')) True"
  shows "0 \<le> val b False"
proof -
  let ?S = "insert 10000 ((\<lambda>p. val (set_cell b (fst p) (snd p) (CHR ''X'')) True) ` set (empties b))"
  have "Min ?S \<in> ?S"
    by (intro Min_in) simp_all
  then show ?thesis
    unfolding val_min [OF assms(1)] using assms(2) by auto
qed

lemma o_safe_val: "o_safe n b m \<Longrightarrow> 0 \<le> val b m"
proof (induction n arbitrary: b m)
  case 0
  then show ?case by simp
next
  case (Suc n)
  show ?case
  proof (cases "terminal_score b")
    case (Some v)
    with Suc.prems show ?thesis
      by (simp add: val_terminal)
  next
    case None
    show ?thesis
    proof (cases m)
      case True
      with Suc.prems None have
        "any_cell (\<lambda>p. o_safe n (set_cell b (fst p) (snd p) (CHR ''O'')) False) b try_order"
        by simp
      from any_cell_ex [OF this] obtain p where
        p: "fst p < length b" "snd p < length (b ! fst p)" "b ! fst p ! snd p = CHR ''-''"
        "o_safe n (set_cell b (fst p) (snd p) (CHR ''O'')) False"
        by blast
      then have "p \<in> set (empties b)"
        by (cases p) (simp add: in_empties)
      from val_max_ge [OF None this] Suc.IH [OF p(4)] True show ?thesis
        by simp
    next
      case False
      with Suc.prems None have
        a: "all_cells (\<lambda>p. o_safe n (set_cell b (fst p) (snd p) (CHR ''X'')) True) (empties b)"
        by simp
      have "0 \<le> val b False"
        using None
      proof (rule val_min_ge0)
        fix p assume "p \<in> set (empties b)"
        from all_cells_all [OF a this] show "0 \<le> val (set_cell b (fst p) (snd p) (CHR ''X'')) True"
          by (rule Suc.IH)
      qed
      with False show ?thesis by simp
    qed
  qed
qed

lemma set_cell_wf: "wf_board b \<Longrightarrow> wf_board (set_cell b r c s)"
  by (simp add: wf_board_def)

lemma three_in_line_set_cell:
  assumes "wf_board b" "r < 3" "c < 3" "s \<noteq> mk" "three_in_line (set_cell b r c mk) s"
  shows "three_in_line b s"
proof -
  have rc: "r < length b" "c < length (b ! r)"
    using wf_in_range [OF assms(1-3)] by simp_all
  have cell: "b ! i ! j = s" if "set_cell b r c mk ! i ! j = s" for i j
    using that assms(4) by (simp add: set_cell_nth [OF rc] split: if_splits)
  from assms(5) show ?thesis
    unfolding three_in_line_iff row_is_def col_is_def diag_is_def
    by (elim disjE conjE) (simp_all add: cell)
qed

lemma one_mark_lines:
  assumes "wf_board b" "terminal_score b = None" "r < 3" "c < 3" "s \<noteq> mk"
    and "s = CHR ''X'' \<or> s = CHR ''O''"
  shows "\<not> three_in_line (set_cell b r c mk) s"
proof
  assume "three_in_line (set_cell b r c mk) s"
  with assms(1,3,4,5) have "three_in_line b s"
    by (rule three_in_line_set_cell)
  moreover from assms(2) have "game_state b = (False, None)"
    by (simp add: terminal_score_None_iff)
  ultimately show False
    using game_state_no_winner [of b] assms(6) by auto
qed

lemma scan_row_mono:
  assumes "\<And>st r. f st = Some r \<Longrightarrow> f' st = Some r"
  shows "scan_row f mk upd r cs s = Some s' \<Longrightarrow> scan_row f' mk upd r cs s = Some s'"
proof (induction cs arbitrary: s)
  case Nil
  then show ?case by (simp add: scan_row_def)
next
  case (Cons c cs)
  show ?case
  proof (cases "snd s ! r ! c = CHR ''-''")
    case True
    with Cons.prems obtain x where x: "f (set_cell (snd s) r c mk) = Some x"
      by (auto simp: scan_row_def split: option.splits)
    with Cons.prems True have
      "scan_row f mk upd r cs (upd (r, c) (fst x) (fst s), set_cell (snd x) r c (CHR ''-'')) = Some s'"
      by (simp add: scan_row_def)
    from Cons.IH [OF this] assms [OF x] True show ?thesis
      by (simp add: scan_row_def)
  next
    case False
    with Cons.prems have "scan_row f mk upd r cs s = Some s'"
      by (simp add: scan_row_def)
    from Cons.IH [OF this] False show ?thesis
      by (simp add: scan_row_def)
  qed
qed

lemma scan_board_mono:
  assumes "\<And>st r. f st = Some r \<Longrightarrow> f' st = Some r"
  shows "scan_board f mk upd rs s = Some s' \<Longrightarrow> scan_board f' mk upd rs s = Some s'"
proof (induction rs arbitrary: s)
  case Nil
  then show ?case by (simp add: scan_board_def)
next
  case (Cons r rs)
  from Cons.prems obtain s1 where
    s1: "scan_row f mk upd r [0..<length (snd s ! r)] s = Some s1"
    and rest: "scan_board f mk upd rs s1 = Some s'"
    by (auto simp: scan_board_def split: option.splits)
  from scan_row_mono [of f f', OF assms s1] Cons.IH [OF rest] show ?case
    by (simp add: scan_board_def)
qed

lemma minimax_mono:
  "minimax n b d m = Some r \<Longrightarrow> n \<le> n' \<Longrightarrow> minimax n' b d' m = Some r"
proof (induction n arbitrary: b d m r n' d')
  case 0
  then show ?case by simp
next
  case (Suc n)
  from Suc.prems obtain k where n': "n' = Suc k" and nk: "n \<le> k"
    by (cases n') auto
  have step: "\<And>st r. minimax n st (d + 1) (\<not> m) = Some r \<Longrightarrow> minimax k st (d' + 1) (\<not> m) = Some r"
    using Suc.IH nk by blast
  show ?case
  proof (cases "terminal_score b")
    case (Some v)
    with Suc.prems show ?thesis
      by (simp add: n')
  next
    case None
    show ?thesis
    proof (cases m)
      case True
      with None Suc.prems have
        "scan_board (\<lambda>st. minimax n st (d + 1) False) (CHR ''O'')
           (\<lambda>p score best. if score > best then score else best) [0..<length b] (- 10000, b) = Some r"
        by (simp add: minimax_Suc_scan del: minimax.simps)
      then have
        "scan_board (\<lambda>st. minimax k st (d' + 1) False) (CHR ''O'')
           (\<lambda>p score best. if score > best then score else best) [0..<length b] (- 10000, b) = Some r"
        using step True by (elim scan_board_mono [rotated]) simp
      with None True show ?thesis
        by (simp add: n' minimax_Suc_scan del: minimax.simps)
    next
      case False
      with None Suc.prems have
        "scan_board (\<lambda>st. minimax n st (d + 1) True) (CHR ''X'')
           (\<lambda>p score best. if score < best then score else best) [0..<length b] (10000, b) = Some r"
        by (simp add: minimax_Suc_scan del: minimax.simps)
      then have
        "scan_board (\<lambda>st. minimax k st (d' + 1) True) (CHR ''X'')
           (\<lambda>p score best. if score < best then score else best) [0..<length b] (10000, b) = Some r"
        using step False by (elim scan_board_mono [rotated]) simp
      with None False show ?thesis
        by (simp add: n' minimax_Suc_scan del: minimax.simps)
    qed
  qed
qed

lemma ai_mono:
  assumes "ai n b p = Some res" "n \<le> n'"
  shows "ai n' b p = Some res"
proof -
  from assms(1) obtain s where
    s: "scan_board (\<lambda>st. minimax n st 0 False) (symbol p)
          (\<lambda>pos score bb. if score > fst bb then (score, Some pos) else bb)
          [0..<length b] ((- 10000, None), b) = Some s"
    by (auto simp: ai_scan split: option.splits)
  have "scan_board (\<lambda>st. minimax n' st 0 False) (symbol p)
          (\<lambda>pos score bb. if score > fst bb then (score, Some pos) else bb)
          [0..<length b] ((- 10000, None), b) = Some s"
    using s minimax_mono [OF _ assms(2)] by (elim scan_board_mono [rotated]) simp
  with s assms(1) show ?thesis
    by (simp add: ai_scan)
qed

lemma ai_move:
  assumes "ai fuel b p = Some (Inr (x, y), b')" "\<not> board_full b"
  shows "b' = b \<and> (x, y) \<in> set (empties b) \<and>
         (\<forall>q\<in>set (empties b).
            val (set_cell b (fst q) (snd q) (symbol p)) False
            \<le> val (set_cell b x y (symbol p)) False)"
proof -
  define n where "n = max fuel (Suc (count_empty b))"
  have big: "ai n b p = Some (Inr (x, y), b')"
    using assms(1) by (rule ai_mono) (simp add: n_def)
  have "count_empty b < n"
    by (simp add: n_def)
  from ai_pick [OF this assms(2), of p] obtain i where
    i: "i < length (empties b)" "ai n b p = Some (Inr (empties b ! i), b)"
    and le: "\<forall>j<length (empties b).
              val (set_cell b (fst (empties b ! j)) (snd (empties b ! j)) (symbol p)) False
              \<le> val (set_cell b (fst (empties b ! i)) (snd (empties b ! i)) (symbol p)) False"
    by blast
  from big i(2) have eq: "b' = b" "empties b ! i = (x, y)"
    by auto
  with i(1) have "(x, y) \<in> set (empties b)"
    by (metis nth_mem)
  moreover have "val (set_cell b (fst q) (snd q) (symbol p)) False
            \<le> val (set_cell b x y (symbol p)) False" if "q \<in> set (empties b)" for q
  proof -
    from that obtain j where "j < length (empties b)" "empties b ! j = q"
      by (auto simp: in_set_conv_nth)
    with le eq show ?thesis by auto
  qed
  ultimately show ?thesis
    using eq by blast
qed

lemma moves_range: "moves k = Some (x, y) \<Longrightarrow> x < 3 \<and> y < 3"
  by (auto simp: moves_def split: if_splits)

lemma init_board_running: "terminal_score init_board = None"
  by (simp add: terminal_score_def init_board_def game_state_def row_is_def col_is_def diag_is_def)

lemma step_safe_config:
  assumes wf: "wf_board b" and t: "t = 1 \<or> t = - 1" and nt: "terminal_score b = None"
    and rc: "r < 3" "c < 3"
    and mk: "mk = symbol (mover nm t)"
    and v: "0 \<le> val (set_cell b r c mk) (t = 1)"
  shows "safe_config (after_play (set_cell b r c mk) t)"
proof -
  let ?b = "set_cell b r c mk"
  have wf': "wf_board ?b"
    using wf by (rule set_cell_wf)
  from game_state_cases [of ?b] show ?thesis
  proof (elim disjE)
    assume g: "game_state ?b = (False, None)"
    show ?thesis
    proof (cases "board_full ?b")
      case True
      with g wf' show ?thesis
        by (simp add: after_play_def safe_config_def)
    next
      case False
      with g have "terminal_score ?b = None"
        by (simp add: terminal_score_None_iff)
      moreover have "(t * - 1 \<noteq> 1) = (t = 1)" "t * - 1 = 1 \<or> t * - 1 = - 1"
        using t by auto
      ultimately show ?thesis
        using g False wf' v by (simp add: after_play_def safe_config_def)
    qed
  next
    assume g: "game_state ?b = (True, Some (CHR ''X''))"
    then have "terminal_score ?b = Some (- 10)"
      by (simp add: terminal_score_def)
    from val_terminal [OF this, of "t = 1"] v show ?thesis
      by simp
  next
    assume g: "game_state ?b = (True, Some (CHR ''O''))"
    show ?thesis
    proof (cases "t = 1")
      case True
      then have "mk = CHR ''X''"
        by (simp add: mk mover_def)
      moreover from g have "three_in_line ?b (CHR ''O'')"
        by (rule game_state_won)
      ultimately have "three_in_line b (CHR ''O'')"
        using three_in_line_set_cell [OF wf rc, of "CHR ''O''" mk] by simp
      moreover from nt have "game_state b = (False, None)"
        by (simp add: terminal_score_None_iff)
      ultimately show ?thesis
        using game_state_no_winner [of b] by simp
    next
      case False
      with g wf' show ?thesis
        by (simp add: after_play_def safe_config_def)
    qed
  qed
qed

lemma val_max_in:
  assumes nt: "terminal_score b = None" and v: "0 \<le> val b True"
  shows "\<exists>q\<in>set (empties b). val b True = val (set_cell b (fst q) (snd q) (CHR ''O'')) False"
proof -
  let ?S = "insert (- 10000) ((\<lambda>p. val (set_cell b (fst p) (snd p) (CHR ''O'')) False) ` set (empties b))"
  have "Max ?S \<in> ?S"
    by (intro Max_in) simp_all
  with v show ?thesis
    unfolding val_max [OF nt] by auto
qed

lemma game_safe_config:
  assumes init: "0 \<le> val init_board True" "0 \<le> val init_board False"
  shows "game nm s \<Longrightarrow> safe_config s"
proof (induction rule: game.induct)
  case (start turn)
  then show ?case
    using init by (auto simp: safe_config_def init_board_wf init_board_running)
next
  case (human_play b turn k x y)
  then have wf: "wf_board b" and t: "turn = 1 \<or> turn = - 1" and nt: "terminal_score b = None"
    and v: "0 \<le> val b (turn \<noteq> 1)"
    by (simp_all add: safe_config_def)
  from human_play.hyps(2) have turn: "turn = 1"
    by (simp add: mover_def split: if_splits)
  have rc: "x < 3" "y < 3"
    using moves_range [OF human_play.hyps(3)] by simp_all
  have "(x, y) \<in> set (empties b)"
    using human_play.hyps(4) wf_in_range [OF wf rc]
    by (auto simp: in_empties check_pos_def split: if_splits)
  from val_min_le [OF nt this] v turn
  have "0 \<le> val (set_cell b x y (symbol (mover nm turn))) (turn = 1)"
    by (simp add: mover_def)
  with wf t nt rc show ?case
    by (intro step_safe_config) simp_all
next
  case (bot_play b turn fuel x y b')
  then have wf: "wf_board b" and t: "turn = 1 \<or> turn = - 1" and nt: "terminal_score b = None"
    and v: "0 \<le> val b (turn \<noteq> 1)"
    by (simp_all add: safe_config_def)
  from nt have "\<not> board_full b"
    by (simp add: terminal_score_None_iff)
  from ai_move [OF bot_play.hyps(3) this] have b': "b' = b" and e: "(x, y) \<in> set (empties b)"
    and best: "\<forall>q\<in>set (empties b).
            val (set_cell b (fst q) (snd q) (symbol (mover nm turn))) False
            \<le> val (set_cell b x y (symbol (mover nm turn))) False"
    by simp_all
  have rc: "x < 3" "y < 3"
    using empties_wf_range [OF wf e] by simp_all
  have "0 \<le> val (set_cell b x y (symbol (mover nm turn))) (turn = 1)"
  proof (cases "turn = 1")
    case True
    with val_min_le [OF nt e] v show ?thesis
      by (simp add: mover_def)
  next
    case False
    with v have "0 \<le> val b True" by simp
    from val_max_in [OF nt this] obtain q where
      "q \<in> set (empties b)" "val b True = val (set_cell b (fst q) (snd q) (CHR ''O'')) False"
      by blast
    with best False \<open>0 \<le> val b True\<close> show ?thesis
      by (auto simp: mover_def)
  qed
  with wf t nt rc show ?case
    unfolding b' by (intro step_safe_config) simp_all
qed

lemma init_safe_O: "o_safe 10 init_board True"
  by code_simp

lemma init_safe_X: "o_safe 10 init_board False"
  by code_simp

section \<open>Claims about the board\<close>

text \<open>
  C6 (win-line completeness): for each of the eight winning lines and each of the two
  marks, \<open>game_state\<close> on the board that holds the mark on exactly that line returns
  \<^verbatim>\<open>(True, mark)\<close>; and on a board with no completed line it returns \<^verbatim>\<open>(False, None)\<close>.
\<close>

theorem win_line_completeness:
  "(l \<in> set win_lines \<and> (s = CHR ''X'' \<or> s = CHR ''O'') \<longrightarrow>
      game_state (line_board l s) = (True, Some s)) \<and>
   (wf_board b \<and> \<not> three_in_line b (CHR ''X'') \<and> \<not> three_in_line b (CHR ''O'') \<longrightarrow>
      game_state b = (False, None))"
  using line_boards_X line_boards_O game_state_none [of b] by blast

text \<open>The statement at the anti-diagonal of \<^verbatim>\<open>'O'\<close> and at the empty board.\<close>

theorem win_line_completeness_witness:
  "[(0, 2), (1, 1), (2, 0)] \<in> set win_lines \<and>
   game_state (line_board [(0, 2), (1, 1), (2, 0)] (CHR ''O'')) = (True, Some (CHR ''O'')) \<and>
   wf_board init_board \<and> \<not> three_in_line init_board (CHR ''X'') \<and>
   \<not> three_in_line init_board (CHR ''O'') \<and> game_state init_board = (False, None)"
proof -
  have l: "[(0, 2), (1, 1), (2, 0)] \<in> set win_lines"
    by (simp add: win_lines_def)
  have n: "\<not> three_in_line init_board (CHR ''X'')" "\<not> three_in_line init_board (CHR ''O'')"
    by (simp_all add: win_lines_def three_in_line_def init_board_def)
  show ?thesis
    using win_line_completeness [of "[(0, 2), (1, 1), (2, 0)]" "CHR ''O''" init_board] l n
    by (simp add: init_board_wf)
qed

text \<open>
  C8, amended: on the board of the scenario the only open cell is (2, 2), and after
  \<^verbatim>\<open>'O'\<close> is placed there \<open>game_state\<close> returns \<^verbatim>\<open>(False, None)\<close> and \<open>board_full\<close>
  returns True: a draw.
\<close>

theorem scenario_draw_O:
  "empties scenario_draw = [(2, 2)] \<and>
   game_state (set_cell scenario_draw 2 2 (CHR ''O'')) = (False, None) \<and>
   board_full (set_cell scenario_draw 2 2 (CHR ''O''))"
  by (simp add: scenario_draw_def set_cell_def game_state_def
      row_is_def col_is_def diag_is_def empties_def cells_def upt_rec_numeral)

text \<open>
  Without the amendment C8 fails, for the mark \<^verbatim>\<open>'X'\<close>: on the board of the scenario the cell (2, 2)
  is open, and \<^verbatim>\<open>'X'\<close> there completes the diagonal (0,0), (1,1), (2,2).
\<close>

theorem scenario_draw_X_wins:
  "check_pos scenario_draw 2 2 \<and>
   game_state (set_cell scenario_draw 2 2 (CHR ''X'')) = (True, Some (CHR ''X''))"
  by (simp add: scenario_draw_def check_pos_def set_cell_def game_state_def
      row_is_def col_is_def diag_is_def)

section \<open>Claims about the search\<close>

text \<open>
  C9 (termination): on every board of the 3x3 shape, whatever its cells hold, \<open>minimax\<close>
  returns once its fuel exceeds the number of open cells, for every depth and either
  layer; and each recursive call is made on a board with strictly fewer open cells:
  writing \<^verbatim>\<open>'O'\<close> or \<^verbatim>\<open>'X'\<close> on an open cell lowers \<open>count_empty\<close>. The model of
  \<open>minimax\<close> has no error branch.
\<close>

theorem minimax_terminates:
  "wf_board b \<Longrightarrow> count_empty b < fuel \<Longrightarrow>
   (\<exists>v b'. minimax fuel b depth max_or_min = Some (v, b')) \<and>
   (\<forall>r c. r < 3 \<and> c < 3 \<and> b ! r ! c = CHR ''-'' \<longrightarrow>
      count_empty (set_cell b r c (CHR ''O'')) < count_empty b \<and>
      count_empty (set_cell b r c (CHR ''X'')) < count_empty b)"
  using minimax_val [of b fuel depth max_or_min] wf_in_range [of b]
  by (auto simp del: minimax.simps intro!: count_empty_set_cell_less)

text \<open>The statement at the empty board, with fuel 10.\<close>

theorem minimax_terminates_witness:
  "wf_board init_board \<and> count_empty init_board < 10 \<and>
   (\<exists>v b'. minimax 10 init_board 0 True = Some (v, b')) \<and>
   count_empty (set_cell init_board 0 0 (CHR ''X'')) < count_empty init_board"
  using minimax_terminates [of init_board 10 0 True]
  by (simp add: init_board_wf count_empty_init del: minimax.simps) (simp add: init_board_def)

text \<open>
  C2 (board restoration): with enough fuel to return, \<open>minimax\<close> and \<open>ai\<close> hand back the
  very board they were called on, whatever the depth, the layer and the player (for \<open>ai\<close>
  also when it raises). The theorem holds for every board, hence for the board of every
  recursive call.
\<close>

theorem board_restored:
  "wf_board b \<Longrightarrow> count_empty b < fuel \<Longrightarrow>
   (\<exists>v. minimax fuel b depth max_or_min = Some (v, b)) \<and>
   (\<exists>res. ai fuel b p = Some (res, b))"
  by (auto simp: minimax_val ai_val simp del: minimax.simps split: option.splits)

text \<open>The statement at the empty board, with fuel 10.\<close>

theorem board_restored_witness:
  "wf_board init_board \<and> count_empty init_board < 10 \<and>
   (\<exists>v. minimax 10 init_board 0 True = Some (v, init_board)) \<and>
   (\<exists>res. ai 10 init_board \<lparr>name = ''Bot'', symbol = CHR ''O''\<rparr> = Some (res, init_board))"
  using board_restored [of init_board 10 0 True "\<lparr>name = ''Bot'', symbol = CHR ''O''\<rparr>"]
  by (simp add: init_board_wf count_empty_init del: minimax.simps)

text \<open>
  C10: on a full board the body of the loops of \<open>ai\<close> never runs, \<^verbatim>\<open>best_move\<close> stays
  unbound and the call raises \<^verbatim>\<open>UnboundLocalError\<close> instead of returning a move (with any
  fuel: \<open>minimax\<close> is never called).
\<close>

theorem ai_full_board:
  assumes "wf_board b" "board_full b"
  shows "ai fuel b p = Some (Inl UnboundLocalError, b)"
proof -
  have "scan_board (\<lambda>st. minimax fuel st 0 False) (symbol p) upd [0..<length b] (acc, b) =
        Some (foldl (\<lambda>a pos. upd pos ((\<lambda>_. 0) pos) a) acc (empties b), b)"
    for upd :: "nat \<times> nat \<Rightarrow> int \<Rightarrow> int \<times> (nat \<times> nat) option \<Rightarrow> int \<times> (nat \<times> nat) option" and acc
  proof (rule scan_board_empties)
    fix r c assume "r < length b" "c < length (b ! r)" "b ! r ! c = CHR ''-''"
    then have "(r, c) \<in> set (empties b)" by (simp add: in_empties)
    with assms(2) show "minimax fuel (set_cell b r c (symbol p)) 0 False =
        Some (0, set_cell b r c (symbol p))"
      by (simp add: board_full_empties)
  qed
  with assms(2) show ?thesis
    by (simp add: ai_scan board_full_empties)
qed

text \<open>The statement at a full board.\<close>

theorem ai_full_board_witness:
  "wf_board [[CHR ''X'', CHR ''O'', CHR ''X''], [CHR ''O'', CHR ''X'', CHR ''O''], [CHR ''O'', CHR ''X'', CHR ''O'']] \<and>
   board_full [[CHR ''X'', CHR ''O'', CHR ''X''], [CHR ''O'', CHR ''X'', CHR ''O''], [CHR ''O'', CHR ''X'', CHR ''O'']] \<and>
   ai 0 [[CHR ''X'', CHR ''O'', CHR ''X''], [CHR ''O'', CHR ''X'', CHR ''O''], [CHR ''O'', CHR ''X'', CHR ''O'']]
      \<lparr>name = ''Bot'', symbol = CHR ''O''\<rparr> =
     Some (Inl UnboundLocalError,
       [[CHR ''X'', CHR ''O'', CHR ''X''], [CHR ''O'', CHR ''X'', CHR ''O''], [CHR ''O'', CHR ''X'', CHR ''O'']])"
  using ai_full_board [of "[[CHR ''X'', CHR ''O'', CHR ''X''], [CHR ''O'', CHR ''X'', CHR ''O''], [CHR ''O'', CHR ''X'', CHR ''O'']]"
      0 "\<lparr>name = ''Bot'', symbol = CHR ''O''\<rparr>"]
  by (simp add: wf_board_def)

text \<open>
  C5 (terminal scoring): for every depth, either layer and any fuel of at least one,
  \<open>minimax\<close> returns -10 on a board that contains three \<^verbatim>\<open>'X'\<close> in a winning line, +10
  on a board that contains three \<^verbatim>\<open>'O'\<close> in a winning line, and 0 on a full board with no
  winning line; the board comes back unchanged. A board that a game or the search reaches
  holds the lines of one mark only: play and search go on from a board without a line, and
  a mark written there completes no line of the other mark (\<open>one_mark_lines\<close>). This is
  the board the claim speaks of: the line of the one mark, and no line of the other. The
  terminal test comes before the layers.
\<close>

theorem terminal_scoring:
  assumes "wf_board b" "0 < fuel"
  shows "(three_in_line b (CHR ''X'') \<and> \<not> three_in_line b (CHR ''O'') \<longrightarrow>
            minimax fuel b depth max_or_min = Some (- 10, b)) \<and>
         (three_in_line b (CHR ''O'') \<and> \<not> three_in_line b (CHR ''X'') \<longrightarrow>
            minimax fuel b depth max_or_min = Some (10, b)) \<and>
         (board_full b \<and> \<not> three_in_line b (CHR ''X'') \<and> \<not> three_in_line b (CHR ''O'') \<longrightarrow>
            minimax fuel b depth max_or_min = Some (0, b))"
proof -
  from assms(2) obtain n where fuel: "fuel = Suc n"
    by (cases fuel) auto
  show ?thesis
    unfolding fuel
    by (auto simp: terminal_score_def game_state_X game_state_O game_state_none)
qed

text \<open>The statement at a board with the middle row of \<^verbatim>\<open>'X'\<close>, depth 7, maximizing.\<close>

theorem terminal_scoring_witness:
  "wf_board (set_cell scenario_win 1 2 (CHR ''X'')) \<and> (0::nat) < 1 \<and>
   three_in_line (set_cell scenario_win 1 2 (CHR ''X'')) (CHR ''X'') \<and>
   \<not> three_in_line (set_cell scenario_win 1 2 (CHR ''X'')) (CHR ''O'') \<and>
   minimax 1 (set_cell scenario_win 1 2 (CHR ''X'')) 7 True =
     Some (- 10, set_cell scenario_win 1 2 (CHR ''X''))"
proof -
  have h: "wf_board (set_cell scenario_win 1 2 (CHR ''X''))"
    "three_in_line (set_cell scenario_win 1 2 (CHR ''X'')) (CHR ''X'')"
    "\<not> three_in_line (set_cell scenario_win 1 2 (CHR ''X'')) (CHR ''O'')"
    by (simp_all add: scenario_win_def set_cell_def wf_board_def three_in_line_def win_lines_def)
  show ?thesis
    using terminal_scoring [of "set_cell scenario_win 1 2 (CHR ''X'')" 1 7 True] h
    by (simp del: minimax.simps)
qed

section \<open>Claims about the choice of the move\<close>

text \<open>
  C3 (termination and coverage): on a board that is not full, with fuel above the number
  of open cells, \<open>ai\<close> returns a pair \<open>(row, col)\<close> with both coordinates below 3 and
  the cell open at the time of the call (and hands the board back). The theorem needs no
  assumption on \<open>game_state\<close>, so it covers every non-terminal board.
\<close>

theorem ai_returns_open_cell:
  assumes "wf_board b" "\<not> board_full b" "count_empty b < fuel"
  shows "\<exists>row col. ai fuel b p = Some (Inr (row, col), b) \<and>
           row < 3 \<and> col < 3 \<and> b ! row ! col = CHR ''-''"
proof -
  from ai_pick [OF assms(3,2), of p] obtain i where
    i: "i < length (empties b)" "ai fuel b p = Some (Inr (empties b ! i), b)"
    by blast
  obtain row col where rc: "empties b ! i = (row, col)"
    by (cases "empties b ! i")
  with i(1) have "(row, col) \<in> set (empties b)"
    by (metis nth_mem)
  with assms(1) i(2) rc show ?thesis
    using empties_wf_range [of b row col] by auto
qed

text \<open>The statement at the board of the draw scenario, with fuel 2.\<close>

theorem ai_returns_open_cell_witness:
  "wf_board scenario_draw \<and> \<not> board_full scenario_draw \<and> count_empty scenario_draw < 2 \<and>
   (\<exists>row col. ai 2 scenario_draw \<lparr>name = ''Bot'', symbol = CHR ''O''\<rparr> =
        Some (Inr (row, col), scenario_draw) \<and>
      row < 3 \<and> col < 3 \<and> scenario_draw ! row ! col = CHR ''-'')"
  using ai_returns_open_cell [of scenario_draw 2 "\<lparr>name = ''Bot'', symbol = CHR ''O''\<rparr>"]
  by (simp add: scenario_draw_wf scenario_draw_open count_empty_scenario_draw del: minimax.simps)

text \<open>
  C4 (optimal choice, row-major tie-break): the open cells are visited in row-major order
  (\<open>empties\<close>); \<open>ai\<close> returns the open cell of some index \<open>i\<close> in that order whose
  score is at least the score of every open cell and strictly greater than the score of
  every open cell before it: the first cell that reaches the maximum.
\<close>

theorem ai_first_best:
  assumes "wf_board b" "\<not> board_full b" "count_empty b < fuel"
  shows "empties b =
           filter (\<lambda>pos. b ! fst pos ! snd pos = CHR ''-'')
             [(0, 0), (0, 1), (0, 2), (1, 0), (1, 1), (1, 2), (2, 0), (2, 1), (2, 2)] \<and>
         (\<exists>i<length (empties b). \<exists>best.
            ai fuel b p = Some (Inr (empties b ! i), b) \<and>
            cell_score fuel b p (empties b ! i) = Some best \<and>
            (\<forall>j<length (empties b). \<exists>s. cell_score fuel b p (empties b ! j) = Some s \<and> s \<le> best) \<and>
            (\<forall>j<i. \<exists>s. cell_score fuel b p (empties b ! j) = Some s \<and> s < best))"
proof
  show "empties b =
           filter (\<lambda>pos. b ! fst pos ! snd pos = CHR ''-'')
             [(0, 0), (0, 1), (0, 2), (1, 0), (1, 1), (1, 2), (2, 0), (2, 1), (2, 2)]"
    using assms(1) by (simp add: empties_def cells_wf case_prod_unfold)
next
  from ai_pick [OF assms(3,2), of p] obtain i where
    i: "i < length (empties b)" "ai fuel b p = Some (Inr (empties b ! i), b)"
    and le: "\<forall>j<length (empties b).
              val (set_cell b (fst (empties b ! j)) (snd (empties b ! j)) (symbol p)) False
              \<le> val (set_cell b (fst (empties b ! i)) (snd (empties b ! i)) (symbol p)) False"
    and less: "\<forall>j<i.
              val (set_cell b (fst (empties b ! j)) (snd (empties b ! j)) (symbol p)) False
              < val (set_cell b (fst (empties b ! i)) (snd (empties b ! i)) (symbol p)) False"
    by blast
  have sc: "cell_score fuel b p (empties b ! j) =
      Some (val (set_cell b (fst (empties b ! j)) (snd (empties b ! j)) (symbol p)) False)"
    if "j < length (empties b)" for j
    using that assms(3) by (intro cell_score_val) simp_all
  let ?best = "val (set_cell b (fst (empties b ! i)) (snd (empties b ! i)) (symbol p)) False"
  have a: "cell_score fuel b p (empties b ! i) = Some ?best"
    using sc i(1) by blast
  have b: "\<forall>j<length (empties b). \<exists>s. cell_score fuel b p (empties b ! j) = Some s \<and> s \<le> ?best"
    using sc le by simp
  have c: "\<forall>j<i. \<exists>s. cell_score fuel b p (empties b ! j) = Some s \<and> s < ?best"
    using sc less i(1) by simp
  from i a b c show "\<exists>i<length (empties b). \<exists>best.
            ai fuel b p = Some (Inr (empties b ! i), b) \<and>
            cell_score fuel b p (empties b ! i) = Some best \<and>
            (\<forall>j<length (empties b). \<exists>s. cell_score fuel b p (empties b ! j) = Some s \<and> s \<le> best) \<and>
            (\<forall>j<i. \<exists>s. cell_score fuel b p (empties b ! j) = Some s \<and> s < best)"
    by blast
qed

text \<open>
  The statement at a board with three open cells, (1, 1), (2, 0) and (2, 2) in row-major
  order, with fuel 4 and \<^verbatim>\<open>'O'\<close> to move: the first open cell scores -10 and the two after
  it tie at 10. The theorem leaves one answer: \<open>ai\<close> returns (2, 0), the first of the two
  cells that reach the maximum.
\<close>

theorem ai_first_best_witness:
  "wf_board tie_board \<and> \<not> board_full tie_board \<and> count_empty tie_board < 4 \<and>
   empties tie_board = [(1, 1), (2, 0), (2, 2)] \<and>
   cell_score 4 tie_board \<lparr>name = ''Bot'', symbol = CHR ''O''\<rparr> (1, 1) = Some (- 10) \<and>
   cell_score 4 tie_board \<lparr>name = ''Bot'', symbol = CHR ''O''\<rparr> (2, 0) = Some 10 \<and>
   cell_score 4 tie_board \<lparr>name = ''Bot'', symbol = CHR ''O''\<rparr> (2, 2) = Some 10 \<and>
   ai 4 tie_board \<lparr>name = ''Bot'', symbol = CHR ''O''\<rparr> = Some (Inr (2, 0), tie_board) \<and>
   (\<exists>i<length (empties tie_board). \<exists>best.
      ai 4 tie_board \<lparr>name = ''Bot'', symbol = CHR ''O''\<rparr> =
        Some (Inr (empties tie_board ! i), tie_board) \<and>
      cell_score 4 tie_board \<lparr>name = ''Bot'', symbol = CHR ''O''\<rparr> (empties tie_board ! i) = Some best \<and>
      (\<forall>j<length (empties tie_board).
         \<exists>s. cell_score 4 tie_board \<lparr>name = ''Bot'', symbol = CHR ''O''\<rparr> (empties tie_board ! j) = Some s \<and>
             s \<le> best) \<and>
      (\<forall>j<i.
         \<exists>s. cell_score 4 tie_board \<lparr>name = ''Bot'', symbol = CHR ''O''\<rparr> (empties tie_board ! j) = Some s \<and>
             s < best))"
proof -
  let ?p = "\<lparr>name = ''Bot'', symbol = CHR ''O''\<rparr>"
  let ?sc = "cell_score 4 tie_board ?p"
  have h: "wf_board tie_board" "\<not> board_full tie_board" "count_empty tie_board < 4"
  proof -
    show "wf_board tie_board" "\<not> board_full tie_board"
      by (simp_all add: wf_board_def tie_board_def)
    show "count_empty tie_board < 4"
      by (simp add: count_empty_def tie_board_empties)
  qed
  from ai_first_best [OF h, of ?p] obtain i best where
    i: "i < length (empties tie_board)"
    and ai: "ai 4 tie_board ?p = Some (Inr (empties tie_board ! i), tie_board)"
    and best: "?sc (empties tie_board ! i) = Some best"
    and le: "\<forall>j<length (empties tie_board). \<exists>s. ?sc (empties tie_board ! j) = Some s \<and> s \<le> best"
    and less: "\<forall>j<i. \<exists>s. ?sc (empties tie_board ! j) = Some s \<and> s < best"
    by blast
  have len: "length (empties tie_board) = 3"
    by (simp add: tie_board_empties)
  have e0: "?sc (empties tie_board ! 0) = Some (- 10)"
    using tie_board_scores(1) by (simp add: tie_board_empties)
  have e1: "?sc (empties tie_board ! 1) = Some 10"
    using tie_board_scores(2) by (simp add: tie_board_empties)
  from i len have "i = 0 \<or> i = 1 \<or> i = 2"
    by auto
  then have i1: "i = 1"
  proof (elim disjE)
    assume i0: "i = 0"
    from best e0 have "best = - 10"
      unfolding i0 by simp
    moreover from le len have "\<exists>s. ?sc (empties tie_board ! 1) = Some s \<and> s \<le> best"
      by simp
    ultimately show ?thesis
      using e1 by simp
  next
    assume "i = 1"
    then show ?thesis .
  next
    assume i2: "i = 2"
    from less have "\<exists>s. ?sc (empties tie_board ! 1) = Some s \<and> s < best"
      unfolding i2 by simp
    moreover from le len have "\<exists>s. ?sc (empties tie_board ! 1) = Some s \<and> s \<le> best"
      by simp
    moreover from best have "?sc (empties tie_board ! 2) = Some best"
      unfolding i2 .
    ultimately show ?thesis
      using e1 tie_board_scores(3) by (simp add: tie_board_empties)
  qed
  with ai have chosen: "ai 4 tie_board ?p = Some (Inr (2, 0), tie_board)"
    by (simp add: tie_board_empties)
  from i ai best le less have ex: "\<exists>i<length (empties tie_board). \<exists>best.
      ai 4 tie_board ?p = Some (Inr (empties tie_board ! i), tie_board) \<and>
      ?sc (empties tie_board ! i) = Some best \<and>
      (\<forall>j<length (empties tie_board). \<exists>s. ?sc (empties tie_board ! j) = Some s \<and> s \<le> best) \<and>
      (\<forall>j<i. \<exists>s. ?sc (empties tie_board ! j) = Some s \<and> s < best)"
    by blast
  from h tie_board_empties tie_board_scores chosen ex show ?thesis
    by (intro conjI)
qed

text \<open>
  C7: on the board O O - / X X - / - - - with \<^verbatim>\<open>'O'\<close> to move, \<open>ai\<close> returns (0, 2), and
  the move completes the top row of \<^verbatim>\<open>'O'\<close>.
\<close>

theorem scenario_win_move:
  assumes "5 < fuel"
  shows "ai fuel scenario_win \<lparr>name = ''Bot'', symbol = CHR ''O''\<rparr> = Some (Inr (0, 2), scenario_win) \<and>
         game_state (set_cell scenario_win 0 2 (CHR ''O'')) = (True, Some (CHR ''O''))"
proof
  let ?p = "\<lparr>name = ''Bot'', symbol = CHR ''O''\<rparr>"
  let ?sc = "\<lambda>pos. val (set_cell scenario_win (fst pos) (snd pos) (symbol ?p)) False"
  have fuel: "count_empty scenario_win < fuel"
    using assms by (simp add: count_empty_def scenario_win_empties)
  have op: "\<not> board_full scenario_win"
    by (simp add: scenario_win_def)
  from ai_pick [OF fuel op, of ?p] obtain i where
    i: "i < length (empties scenario_win)"
       "ai fuel scenario_win ?p = Some (Inr (empties scenario_win ! i), scenario_win)"
    and less: "\<forall>j<i. ?sc (empties scenario_win ! j) < ?sc (empties scenario_win ! i)"
    by blast
  have first: "?sc (empties scenario_win ! 0) = 10"
    using val_terminal [OF scenario_win_top_row] by (simp add: scenario_win_empties)
  have "i = 0"
  proof (rule ccontr)
    assume "i \<noteq> 0"
    with less first have "10 < ?sc (empties scenario_win ! i)"
      by auto
    with val_range [of "set_cell scenario_win (fst (empties scenario_win ! i))
        (snd (empties scenario_win ! i)) (symbol ?p)" False]
    show False by auto
  qed
  with i(2) show "ai fuel scenario_win ?p = Some (Inr (0, 2), scenario_win)"
    by (simp add: scenario_win_empties)
next
  show "game_state (set_cell scenario_win 0 2 (CHR ''O'')) = (True, Some (CHR ''O''))"
    by (simp add: scenario_win_def set_cell_def game_state_def row_is_def col_is_def diag_is_def)
qed

text \<open>The statement with fuel 6.\<close>

theorem scenario_win_move_witness:
  "(5::nat) < 6 \<and>
   ai 6 scenario_win \<lparr>name = ''Bot'', symbol = CHR ''O''\<rparr> = Some (Inr (0, 2), scenario_win)"
  using scenario_win_move [of 6] by simp

section \<open>Claims about the game\<close>

text \<open>
  C1 (perfect play, no loss): in every configuration that the single-player game reaches
  from the empty board, whoever moves first and whatever open positions the player of
  \<^verbatim>\<open>'X'\<close> chooses, with the moves of \<^verbatim>\<open>'O'\<close> taken from \<open>ai\<close>, the loop has not ended with
  a win of \<^verbatim>\<open>p1\<close> (the player of \<^verbatim>\<open>'X'\<close>) and \<open>game_state\<close> does not report \<^verbatim>\<open>'X'\<close>: the
  game ends in a draw or a win of \<^verbatim>\<open>'O'\<close>. While the game runs \<open>ai\<close> returns an open
  cell, so the game is never stuck at a turn of the automated player.
\<close>

theorem perfect_play:
  "game nm (b, ph) \<Longrightarrow>
   ph \<noteq> P1_won \<and> game_state b \<noteq> (True, Some (CHR ''X'')) \<and>
   (\<forall>turn. ph = Playing turn \<longrightarrow>
      (\<exists>x y. ai (Suc (count_empty b)) b (mover nm turn) = Some (Inr (x, y), b) \<and>
         check_pos b x y))"
proof -
  assume "game nm (b, ph)"
  then have safe_config: "safe_config (b, ph)"
    using o_safe_val [OF init_safe_O] o_safe_val [OF init_safe_X] by (rule game_safe_config [rotated 2])
  have 1: "ph \<noteq> P1_won"
    using safe_config by (auto simp: safe_config_def)
  have 2: "game_state b \<noteq> (True, Some (CHR ''X''))"
    using safe_config by (cases ph) (auto simp: safe_config_def terminal_score_None_iff)
  have 3: "\<exists>x y. ai (Suc (count_empty b)) b (mover nm turn) = Some (Inr (x, y), b) \<and> check_pos b x y"
    if "ph = Playing turn" for turn
  proof -
    from safe_config that have "\<not> board_full b"
      by (simp add: safe_config_def terminal_score_None_iff)
    from ai_pick [OF _ this, of "Suc (count_empty b)" "mover nm turn"] obtain i where
      i: "i < length (empties b)"
      "ai (Suc (count_empty b)) b (mover nm turn) = Some (Inr (empties b ! i), b)"
      by auto
    obtain x y where xy: "empties b ! i = (x, y)"
      by (cases "empties b ! i")
    with i(1) have "(x, y) \<in> set (empties b)"
      by (metis nth_mem)
    then have "check_pos b x y"
      by (simp add: in_empties check_pos_def)
    with i(2) xy show ?thesis
      by auto
  qed
  from 1 2 3 show ?thesis
    by blast
qed

text \<open>The statement at the configuration after \<^verbatim>\<open>'X'\<close> opens in the centre.\<close>

theorem perfect_play_witness:
  "game ''Ann'' (centre_taken, Playing (- 1)) \<and>
   game_state centre_taken \<noteq> (True, Some (CHR ''X'')) \<and>
   (\<exists>x y. ai (Suc (count_empty centre_taken)) centre_taken (mover ''Ann'' (- 1)) =
        Some (Inr (x, y), centre_taken) \<and> check_pos centre_taken x y)"
proof -
  have "game ''Ann'' (after_play (set_cell init_board 1 1 (symbol (mover ''Ann'' 1))) 1)"
    by (rule game.human_play [OF game.start, of 1 _ 5])
      (simp_all add: mover_def moves_def check_pos_def init_board_def)
  moreover have "after_play (set_cell init_board 1 1 (symbol (mover ''Ann'' 1))) 1 =
      (centre_taken, Playing (- 1))"
    by (simp add: after_play_def mover_def set_cell_def init_board_def centre_taken_def
        game_state_def row_is_def col_is_def diag_is_def)
  ultimately have g: "game ''Ann'' (centre_taken, Playing (- 1))"
    by simp
  from perfect_play [OF g] g show ?thesis
    by blast
qed

end
